theory Spec2Isabelle
  imports Complex_Main "HOL-Library.List_Lexorder" "HOL-Library.Char_ord"
    "HOL-Library.Product_Lexorder" "HOL-Library.Multiset"
begin

section \<open>Python values and errors\<close>

text \<open>
  Strings are \<open>string\<close>; Python compares them by code point, lexicographically,
  which is the order of \<open>List_Lexorder\<close> over \<open>Char_ord\<close>.  Exceptions are
  values of \<open>error\<close>; a function that can raise returns \<open>error + 'a\<close>.
\<close>

datatype error = ValueError | IndexError | NameError | ZeroDivisionError

definition bind :: "error + 'a \<Rightarrow> ('a \<Rightarrow> error + 'b) \<Rightarrow> error + 'b" where
  "bind m f = (case m of Inl e \<Rightarrow> Inl e | Inr x \<Rightarrow> f x)"

text \<open>A list comprehension whose body can raise: the first failure is the result.\<close>

fun mapE :: "('a \<Rightarrow> error + 'b) \<Rightarrow> 'a list \<Rightarrow> error + 'b list" where
  "mapE f [] = Inr []"
| "mapE f (x # xs) = bind (f x) (\<lambda>y. bind (mapE f xs) (\<lambda>ys. Inr (y # ys)))"

text \<open>\<open>xs[i]\<close> for a non-negative index: IndexError out of range.\<close>

definition getitem :: "'a list \<Rightarrow> nat \<Rightarrow> error + 'a" where
  "getitem xs i = (if i < length xs then Inr (xs ! i) else Inl IndexError)"

text \<open>\<open>xs.index(x)\<close>: the first position of \<open>x\<close>, ValueError when absent.\<close>

fun index :: "'a list \<Rightarrow> 'a \<Rightarrow> error + nat" where
  "index [] x = Inl ValueError"
| "index (y # ys) x = (if y = x then Inr 0 else bind (index ys x) (\<lambda>i. Inr (Suc i)))"

text \<open>\<open>s.split(sep)\<close> for a one-character separator.\<close>

fun str_split :: "char \<Rightarrow> string \<Rightarrow> string list" where
  "str_split sep [] = [[]]"
| "str_split sep (c # cs) =
     (if c = sep then [] # str_split sep cs
      else (case str_split sep cs of p # ps \<Rightarrow> (c # p) # ps | [] \<Rightarrow> [[c]]))"

text \<open>\<open>a, b = xs\<close>: ValueError unless \<open>xs\<close> has exactly two elements.\<close>

fun unpack2 :: "'a list \<Rightarrow> error + ('a \<times> 'a)" where
  "unpack2 [a, b] = Inr (a, b)"
| "unpack2 xs = Inl ValueError"

text \<open>
  A loop that appends \<open>x\<close> to the output list when a test holds; an exception raised
  by the test of some element ends the call.
\<close>

fun filterE :: "('a \<Rightarrow> error + bool) \<Rightarrow> 'a list \<Rightarrow> error + 'a list" where
  "filterE p [] = Inr []"
| "filterE p (x # xs) =
     bind (p x) (\<lambda>b. bind (filterE p xs) (\<lambda>ys. Inr (if b then x # ys else ys)))"

text \<open>
  Floating-point numbers are idealised as reals.  A numpy division does not raise on a
  zero divisor: it yields an infinity or not-a-number, which \<open>npfloat\<close> writes out
  (signed zeros are not modelled).  A comparison with not-a-number is false.
\<close>

datatype npfloat = Finite real | PosInf | NegInf | NaN

definition np_divide :: "real \<Rightarrow> real \<Rightarrow> npfloat" where
  "np_divide x y =
     (if y \<noteq> 0 then Finite (x / y)
      else if 0 < x then PosInf else if x < 0 then NegInf else NaN)"

fun np_ge :: "npfloat \<Rightarrow> real \<Rightarrow> bool" where
  "np_ge (Finite x) y = (y \<le> x)"
| "np_ge PosInf y = True"
| "np_ge NegInf y = False"
| "np_ge NaN y = False"

section \<open>ptime: date formats\<close>

text \<open>\<open>yymmdd2yyyymmdd\<close> is only called on six characters, so \<open>date[0]\<close> exists.\<close>

definition yymmdd2yyyymmdd :: "string \<Rightarrow> string" where
  "yymmdd2yyyymmdd date = (if hd date = CHR ''9'' then ''19'' @ date else ''20'' @ date)"

text \<open>\<open>yyyymmdd\<close> and \<open>yymmdd\<close>: the \<open>str\<close> branch and the \<open>list\<close> branch.\<close>

definition yyyymmdd_str :: "string \<Rightarrow> string" where
  "yyyymmdd_str dates = (if length dates = 6 then yymmdd2yyyymmdd dates else dates)"

definition yyyymmdd :: "string list \<Rightarrow> string list" where
  "yyyymmdd dates = map yyyymmdd_str dates"

definition yymmdd_str :: "string \<Rightarrow> string" where
  "yymmdd_str dates = (if length dates = 8 then take 6 (drop 2 dates) else dates)"

definition yymmdd :: "string list \<Rightarrow> string list" where
  "yymmdd dates = map yymmdd_str dates"

text \<open>
  \<open>date_list2tbase\<close>, first component.  The library call
  \<open>dt(*time.strptime(i, "%Y%m%d")[0:5])\<close> is the parameter \<open>strptime\<close>: the day number
  of the parsed date, \<open>None\<close> when the call raises ValueError.
\<close>

definition date_list2tbase :: "(string \<Rightarrow> int option) \<Rightarrow> string list \<Rightarrow> error + int list" where
  "date_list2tbase strptime dateList =
     (let dateList = yyyymmdd dateList in
      bind (mapE (\<lambda>i. case strptime i of None \<Rightarrow> Inl ValueError | Some d \<Rightarrow> Inr d) dateList)
        (\<lambda>dates. Inr (map (\<lambda>i. i - hd dates) dates)))"

text \<open>
  A calendar for the examples: the day number (proleptic Gregorian ordinal) of a date
  written with eight digits.  Every other string is rejected here; the theorems hold for
  any \<open>strptime\<close>.
\<close>

definition digit_of :: "char \<Rightarrow> nat option" where
  "digit_of c = (let n = (of_char c :: nat) in if 48 \<le> n \<and> n \<le> 57 then Some (n - 48) else None)"

fun number_of :: "nat \<Rightarrow> string \<Rightarrow> nat option" where
  "number_of acc [] = Some acc"
| "number_of acc (c # cs) =
     (case digit_of c of None \<Rightarrow> None | Some d \<Rightarrow> number_of (10 * acc + d) cs)"

definition is_leap :: "nat \<Rightarrow> bool" where
  "is_leap y = (y mod 4 = 0 \<and> (y mod 100 \<noteq> 0 \<or> y mod 400 = 0))"

definition days_in_month :: "nat \<Rightarrow> nat \<Rightarrow> nat" where
  "days_in_month y m =
     (if m = 2 then (if is_leap y then 29 else 28)
      else if m = 4 \<or> m = 6 \<or> m = 9 \<or> m = 11 then 30 else 31)"

definition days_before_year :: "nat \<Rightarrow> nat" where
  "days_before_year y = (let yy = y - 1 in yy * 365 + yy div 4 - yy div 100 + yy div 400)"

definition days_before_month :: "nat \<Rightarrow> nat \<Rightarrow> nat" where
  "days_before_month y m = sum_list (map (days_in_month y) [1..<m])"

definition strptime_days :: "string \<Rightarrow> int option" where
  "strptime_days s =
     (if length s \<noteq> 8 then None
      else case (number_of 0 (take 4 s), number_of 0 (take 2 (drop 4 s)), number_of 0 (drop 6 s)) of
        (Some y, Some m, Some d) \<Rightarrow>
          if 1 \<le> y \<and> 1 \<le> m \<and> m \<le> 12 \<and> 1 \<le> d \<and> d \<le> days_in_month y m
          then Some (int (days_before_year y + days_before_month y m + d)) else None
      | _ \<Rightarrow> None)"

section \<open>network: physical model\<close>

text \<open>The Doppler polynomial of one acquisition at a range pixel; \<open>dop[k]\<close> can raise.\<close>

definition doppler_at :: "real list \<Rightarrow> real \<Rightarrow> error + real" where
  "doppler_at dop rangepix =
     bind (getitem dop 0) (\<lambda>d0. bind (getitem dop 1) (\<lambda>d1. bind (getitem dop 2) (\<lambda>d2.
       Inr (d0 + (rangepix - 1) * d1 + (rangepix - 1)\<^sup>2 * d2))))"

definition calculate_doppler_overlap :: "real list \<Rightarrow> real list \<Rightarrow> real \<Rightarrow> error + npfloat" where
  "calculate_doppler_overlap dop_a dop_b bandwidth_az =
     (let no_of_rangepix = 5000 in
      bind (mapE (\<lambda>i. let rangepix = (real i - 1) * no_of_rangepix / 10 + 1 in
                   bind (doppler_at dop_a rangepix) (\<lambda>da.
                   bind (doppler_at dop_b rangepix) (\<lambda>db. Inr \<bar>da - db\<bar>))) [0..<10])
        (\<lambda>ddiff. let ddiff_mean = sum_list ddiff / real (length ddiff) in
           Inr (np_divide (bandwidth_az - ddiff_mean) bandwidth_az)))"

section \<open>network: threshold filters\<close>

text \<open>
  The date list derived from the pairs:
  \<open>sorted(ptime.yyyymmdd(list(set(m_dates + s_dates))))\<close>.  The order in which the set is
  listed does not matter, as the list is sorted afterwards.
\<close>

definition dates_of_pairs :: "string list \<Rightarrow> error + string list" where
  "dates_of_pairs date12_list =
     bind (mapE (\<lambda>date12. getitem (str_split CHR ''-'' date12) 0) date12_list) (\<lambda>m_dates.
     bind (mapE (\<lambda>date12. getitem (str_split CHR ''-'' date12) 1) date12_list) (\<lambda>s_dates.
       Inr (sort (yyyymmdd (remdups (m_dates @ s_dates))))))"

text \<open>
  Printed lines are the first component of the result of a function that prints.
  In \<open>threshold_doppler_overlap\<close> the name \<open>pbase_list\<close> is neither a parameter nor a
  global of the module: evaluating it raises NameError.
\<close>

definition skip_filtering_msgs :: "string list" where
  "skip_filtering_msgs =
     [''ERROR: number of existing dates is not equal to number of perp baseline!'',
      ''date list is needed for threshold filtering!'',
      ''skip filtering.'']"

definition pbase_list_unbound :: "error + real list" where
  "pbase_list_unbound = Inl NameError"

definition doppler_loop ::
  "string list \<Rightarrow> string list \<Rightarrow> real list list \<Rightarrow> real \<Rightarrow> real \<Rightarrow> error + string list" where
  "doppler_loop date12_list date_list dop_list bandwidth_az dop_overlap_min =
     (let date6_list = yymmdd date_list in
      filterE (\<lambda>date12.
        bind (unpack2 (str_split CHR ''-'' date12)) (\<lambda>(date1, date2).
        bind (index date6_list date1) (\<lambda>idx1.
        bind (index date6_list date2) (\<lambda>idx2.
        bind (getitem dop_list idx1) (\<lambda>dop1.
        bind (getitem dop_list idx2) (\<lambda>dop2.
        bind (calculate_doppler_overlap dop1 dop2 bandwidth_az) (\<lambda>dop_overlap.
          Inr (np_ge dop_overlap dop_overlap_min)))))))) date12_list)"

definition threshold_doppler_overlap ::
  "string list \<Rightarrow> string list \<Rightarrow> real list list \<Rightarrow> real \<Rightarrow> real
     \<Rightarrow> string list \<times> (error + string list)" where
  "threshold_doppler_overlap date12_list date_list dop_list bandwidth_az dop_overlap_min =
     (if date12_list = [] then ([], Inr [])
      else if date_list = [] then
        (case dates_of_pairs date12_list of
           Inl e \<Rightarrow> ([], Inl e)
         | Inr date_list \<Rightarrow>
             (case pbase_list_unbound of
                Inl e \<Rightarrow> ([], Inl e)
              | Inr pbase_list \<Rightarrow>
                  if \<not> length date_list = length pbase_list
                  then (skip_filtering_msgs, Inr date12_list)
                  else ([], doppler_loop date12_list date_list dop_list bandwidth_az
                              dop_overlap_min)))
      else ([], doppler_loop date12_list date_list dop_list bandwidth_az dop_overlap_min))"

definition perp_loop ::
  "string list \<Rightarrow> string list \<Rightarrow> real list \<Rightarrow> real \<Rightarrow> real \<Rightarrow> error + string list" where
  "perp_loop date12_list date_list pbase_list pbase_max pbase_min =
     (let date6_list = yymmdd date_list in
      filterE (\<lambda>date12.
        bind (unpack2 (str_split CHR ''-'' date12)) (\<lambda>(date1, date2).
        bind (index date6_list date1) (\<lambda>idx1.
        bind (index date6_list date2) (\<lambda>idx2.
        bind (getitem pbase_list idx1) (\<lambda>pbase1.
        bind (getitem pbase_list idx2) (\<lambda>pbase2.
          let pbase = \<bar>pbase1 - pbase2\<bar> in
          Inr (pbase_min \<le> pbase \<and> pbase \<le> pbase_max))))))) date12_list)"

definition threshold_perp_baseline ::
  "string list \<Rightarrow> string list \<Rightarrow> real list \<Rightarrow> real \<Rightarrow> real
     \<Rightarrow> string list \<times> (error + string list)" where
  "threshold_perp_baseline date12_list date_list pbase_list pbase_max pbase_min =
     (if date12_list = [] then ([], Inr [])
      else if date_list = [] then
        (case dates_of_pairs date12_list of
           Inl e \<Rightarrow> ([], Inl e)
         | Inr date_list \<Rightarrow>
             if \<not> length date_list = length pbase_list
             then (skip_filtering_msgs, Inr date12_list)
             else ([], perp_loop date12_list date_list pbase_list pbase_max pbase_min))
      else ([], perp_loop date12_list date_list pbase_list pbase_max pbase_min))"

text \<open>
  \<open>threshold_temporal_baseline\<close>.  \<open>tbase\<close> is an \<open>int\<close>, so \<open>tbase/30\<close> is Python 3's
  true division and \<open>tbase/30 in [11, 12]\<close> compares a float with the integers 11 and 12.
\<close>

definition threshold_temporal_baseline ::
  "(string \<Rightarrow> int option) \<Rightarrow> string list \<Rightarrow> real \<Rightarrow> bool \<Rightarrow> real \<Rightarrow> error + string list" where
  "threshold_temporal_baseline strptime date12_list btemp_max keep_seasonal btemp_min =
     (if date12_list = [] then Inr []
      else
        bind (dates_of_pairs date12_list) (\<lambda>date8_list.
        let date6_list = yymmdd date8_list in
        bind (date_list2tbase strptime date8_list) (\<lambda>tbase_list.
        filterE (\<lambda>date12.
          bind (unpack2 (str_split CHR ''-'' date12)) (\<lambda>(date1, date2).
          bind (index date6_list date1) (\<lambda>idx1.
          bind (index date6_list date2) (\<lambda>idx2.
            let tbase = \<bar>tbase_list ! idx1 - tbase_list ! idx2\<bar> in
            Inr (if btemp_min \<le> real_of_int tbase \<and> real_of_int tbase \<le> btemp_max then True
                 else if keep_seasonal \<and> real_of_int tbase / 30 \<in> set [11, 12] then True
                 else False))))) date12_list)))"

text \<open>
  What the temporal filter computes for one pair, in closed form: the absolute number of
  days between its two dates (defined when the pair has two dash-separated dates, neither
  eight characters long, that the calendar accepts), and the test the loop applies to it.
\<close>

definition temporal_baseline_of :: "(string \<Rightarrow> int option) \<Rightarrow> string \<Rightarrow> int option" where
  "temporal_baseline_of strptime date12 =
     (case str_split CHR ''-'' date12 of
        [date1, date2] \<Rightarrow>
          if length date1 = 8 \<or> length date2 = 8 then None
          else (case (strptime (yyyymmdd_str date1), strptime (yyyymmdd_str date2)) of
                  (Some a, Some b) \<Rightarrow> Some \<bar>a - b\<bar>
                | _ \<Rightarrow> None)
      | _ \<Rightarrow> None)"

definition temporal_keep :: "(string \<Rightarrow> int option) \<Rightarrow> real \<Rightarrow> bool \<Rightarrow> real \<Rightarrow> string \<Rightarrow> bool" where
  "temporal_keep strptime btemp_max keep_seasonal btemp_min date12 =
     (case temporal_baseline_of strptime date12 of
        None \<Rightarrow> False
      | Some tbase \<Rightarrow>
          (btemp_min \<le> real_of_int tbase \<and> real_of_int tbase \<le> btemp_max)
          \<or> (keep_seasonal \<and> (tbase = 330 \<or> tbase = 360)))"

section \<open>network: construction strategies\<close>

text \<open>\<open>itertools.combinations(xs, 2)\<close>.\<close>

fun combinations2 :: "'a list \<Rightarrow> ('a \<times> 'a) list" where
  "combinations2 [] = []"
| "combinations2 (x # xs) = map (Pair x) xs @ combinations2 xs"

definition select_pairs_all :: "string list \<Rightarrow> string list" where
  "select_pairs_all date_list =
     (let date8_list = sort (yyyymmdd date_list);
          date6_list = yymmdd date8_list;
          date12_list = combinations2 date6_list
      in map (\<lambda>date12. fst date12 @ ''-'' @ snd date12) date12_list)"










section \<open>network: coherence matrix\<close>

text \<open>\<open>s.replace(a, b)\<close> for single characters, and \<open>ptime.yymmdd_date12\<close>.\<close>

definition str_replace :: "char \<Rightarrow> char \<Rightarrow> string \<Rightarrow> string" where
  "str_replace a b s = map (\<lambda>c. if c = a then b else c) s"

definition yymmdd_date12 :: "string list \<Rightarrow> error + string list" where
  "yymmdd_date12 date12_list =
     bind (mapE (\<lambda>i. getitem (str_split CHR ''_'' (str_replace CHR ''-'' CHR ''_'' i)) 0)
             date12_list) (\<lambda>m_dates.
     bind (mapE (\<lambda>i. getitem (str_split CHR ''_'' (str_replace CHR ''-'' CHR ''_'' i)) 1)
             date12_list) (\<lambda>s_dates.
       Inr (map (\<lambda>(m, s). m @ ''-'' @ s) (zip (yymmdd m_dates) (yymmdd s_dates)))))"

text \<open>
  The date list of \<open>coherence_matrix\<close>:
  \<open>sorted(ptime.yymmdd(list(set(m_dates + s_dates))))\<close>.
\<close>

definition date6_of_pairs :: "string list \<Rightarrow> error + string list" where
  "date6_of_pairs date12_list =
     bind (mapE (\<lambda>date12. getitem (str_split CHR ''-'' date12) 0) date12_list) (\<lambda>m_dates.
     bind (mapE (\<lambda>date12. getitem (str_split CHR ''-'' date12) 1) date12_list) (\<lambda>s_dates.
       Inr (sort (yymmdd (remdups (m_dates @ s_dates))))))"

text \<open>
  The matrix is a list of rows of floats; \<open>coh_mat[i, j] = v\<close> is \<open>set_entry\<close>.  The
  default \<open>diagValue\<close>, the object \<open>np.nan\<close> itself, is \<open>None\<close>: the test
  \<open>diagValue is not np.nan\<close> is one of identity.
\<close>

definition set_entry :: "npfloat list list \<Rightarrow> nat \<Rightarrow> nat \<Rightarrow> npfloat \<Rightarrow> npfloat list list" where
  "set_entry coh_mat i j v = coh_mat[i := (coh_mat ! i)[j := v]]"

text \<open>The two assignments of the loop body, and the shape of the matrix.\<close>

definition set_symmetric :: "npfloat list list \<Rightarrow> nat \<times> nat \<times> npfloat \<Rightarrow> npfloat list list" where
  "set_symmetric coh_mat e =
     (case e of (idx1, idx2, coh) \<Rightarrow> set_entry (set_entry coh_mat idx1 idx2 coh) idx2 idx1 coh)"

definition square :: "nat \<Rightarrow> 'a list list \<Rightarrow> bool" where
  "square n mat = (length mat = n \<and> (\<forall>row\<in>set mat. length row = n))"

definition coherence_entry :: "string list \<Rightarrow> string list \<Rightarrow> npfloat list \<Rightarrow> string
     \<Rightarrow> error + (nat \<times> nat \<times> npfloat)" where
  "coherence_entry date12_list date_list coh_list date12 =
     bind (unpack2 (str_split CHR ''-'' date12)) (\<lambda>(date1, date2).
     bind (index date_list date1) (\<lambda>idx1.
     bind (index date_list date2) (\<lambda>idx2.
     bind (index date12_list date12) (\<lambda>k.
     bind (getitem coh_list k) (\<lambda>coh. Inr (idx1, idx2, coh))))))"

fun coherence_loop :: "string list \<Rightarrow> string list \<Rightarrow> npfloat list \<Rightarrow> string list
     \<Rightarrow> npfloat list list \<Rightarrow> error + npfloat list list" where
  "coherence_loop date12_list date_list coh_list [] coh_mat = Inr coh_mat"
| "coherence_loop date12_list date_list coh_list (date12 # rest) coh_mat =
     bind (coherence_entry date12_list date_list coh_list date12) (\<lambda>e.
       coherence_loop date12_list date_list coh_list rest (set_symmetric coh_mat e))"

definition coherence_matrix ::
  "string list \<Rightarrow> npfloat list \<Rightarrow> npfloat option \<Rightarrow> error + npfloat list list" where
  "coherence_matrix date12_list coh_list diagValue =
     bind (yymmdd_date12 date12_list) (\<lambda>date12_list.
     bind (date6_of_pairs date12_list) (\<lambda>date_list.
     let date_num = length date_list;
         coh_mat = replicate date_num (replicate date_num NaN) in
     bind (coherence_loop date12_list date_list coh_list date12_list coh_mat) (\<lambda>coh_mat.
       Inr (case diagValue of
              None \<Rightarrow> coh_mat
            | Some v \<Rightarrow> fold (\<lambda>i coh_mat. set_entry coh_mat i i v) [0..<date_num] coh_mat))))"

text \<open>
  A normalised pair identifier: two dash-separated dates, neither eight characters long.
\<close>

definition date12_ok :: "string \<Rightarrow> bool" where
  "date12_ok date12 =
     (case str_split CHR ''-'' date12 of
        [m, s] \<Rightarrow> length m \<noteq> 8 \<and> length s \<noteq> 8
      | _ \<Rightarrow> False)"

section \<open>Error monad and list helpers\<close>

lemma bind_Inl [simp]: "bind (Inl e) f = Inl e"
  by (simp add: bind_def)

lemma bind_Inr [simp]: "bind (Inr x) f = f x"
  by (simp add: bind_def)

lemma bind_eq_Inr: "bind m f = Inr y \<longleftrightarrow> (\<exists>x. m = Inr x \<and> f x = Inr y)"
  by (cases m) simp_all

lemma mapE_eq_Inr: "mapE f xs = Inr ys \<longleftrightarrow> list_all2 (\<lambda>x y. f x = Inr y) xs ys"
proof (induction xs arbitrary: ys)
  case Nil
  then show ?case by auto
next
  case (Cons x xs)
  show ?case
    by (cases ys) (auto simp: bind_eq_Inr Cons.IH)
qed

lemma mapE_Inr_map: "(\<And>x. x \<in> set xs \<Longrightarrow> f x = Inr (g x)) \<Longrightarrow> mapE f xs = Inr (map g xs)"
  by (induction xs) simp_all

lemma mapE_Inr_all: "mapE f xs = Inr ys \<Longrightarrow> x \<in> set xs \<Longrightarrow> \<exists>y. f x = Inr y"
  by (induction xs arbitrary: ys) (auto simp: bind_eq_Inr)

lemma filterE_Inr_filter:
  "(\<And>x. x \<in> set xs \<Longrightarrow> p x = Inr (k x)) \<Longrightarrow> filterE p xs = Inr (filter k xs)"
  by (induction xs) simp_all

lemma filterE_Inr_all: "filterE p xs = Inr ys \<Longrightarrow> x \<in> set xs \<Longrightarrow> \<exists>b. p x = Inr b"
  by (induction xs arbitrary: ys) (auto simp: bind_eq_Inr)

lemma filterE_Inr_eq:
  "filterE p xs = Inr ys \<Longrightarrow> ys = filter (\<lambda>x. p x = Inr True) xs"
  by (induction xs arbitrary: ys) (auto simp: bind_eq_Inr)

lemma filterE_cong:
  "(\<And>x. x \<in> set xs \<Longrightarrow> p x = q x) \<Longrightarrow> filterE p xs = filterE q xs"
  by (induction xs) simp_all

lemma filterE_idem:
  assumes "filterE p xs = Inr ys"
  shows "filterE p ys = Inr ys"
proof -
  have ys: "ys = filter (\<lambda>x. p x = Inr True) xs" using assms by (rule filterE_Inr_eq)
  have "filterE p ys = Inr (filter (\<lambda>x. True) ys)"
    by (rule filterE_Inr_filter) (simp add: ys)
  then show ?thesis by simp
qed

lemma index_Inr_iff: "index xs x = Inr i \<longleftrightarrow> i < length xs \<and> xs ! i = x \<and> (\<forall>j<i. xs ! j \<noteq> x)"
proof (induction xs arbitrary: i)
  case Nil
  then show ?case by simp
next
  case (Cons y ys)
  show ?case
  proof (cases "y = x")
    case True
    then show ?thesis by (cases i) auto
  next
    case False
    show ?thesis
    proof (cases i)
      case 0
      then show ?thesis using False by (auto simp: bind_eq_Inr)
    next
      case (Suc k)
      have "(\<forall>j<Suc k. (y # ys) ! j \<noteq> x) \<longleftrightarrow> (\<forall>j<k. ys ! j \<noteq> x)"
        using False by (auto simp: less_Suc_eq_0_disj)
      then show ?thesis using False Suc by (simp add: bind_eq_Inr Cons.IH)
    qed
  qed
qed

lemma index_Inr_mem: "x \<in> set xs \<Longrightarrow> \<exists>i. index xs x = Inr i"
  by (induction xs) auto

lemma index_Inr_D: "index xs x = Inr i \<Longrightarrow> i < length xs \<and> xs ! i = x"
  by (simp add: index_Inr_iff)

lemma index_Inl: "x \<notin> set xs \<Longrightarrow> index xs x = Inl ValueError"
  by (induction xs) auto

lemma str_split_nonempty: "str_split sep s \<noteq> []"
  by (induction s) (auto split: list.splits)

lemma unpack2_eq_Inr: "unpack2 xs = Inr (a, b) \<longleftrightarrow> xs = [a, b]"
  by (cases xs rule: unpack2.cases) auto

section \<open>Date formats\<close>

lemma length_yymmdd_str_neq_8: "length (yymmdd_str d) \<noteq> 8"
  by (simp add: yymmdd_str_def)

lemma yymmdd_yyyymmdd_str: "length d \<noteq> 8 \<Longrightarrow> yymmdd_str (yyyymmdd_str d) = d"
  by (simp add: yymmdd_str_def yyyymmdd_str_def yymmdd2yyyymmdd_def)

lemma yyyymmdd_str_idem: "yyyymmdd_str (yyyymmdd_str d) = yyyymmdd_str d"
  by (simp add: yyyymmdd_str_def yymmdd2yyyymmdd_def)

section \<open>Properties of the all-pairs strategy\<close>

lemma length_combinations2: "length (combinations2 xs) = length xs * (length xs - 1) div 2"
proof (induction xs)
  case Nil then show ?case by simp
next
  case (Cons x xs)
  have "length (combinations2 (x # xs)) = length xs + length xs * (length xs - 1) div 2"
    using Cons by simp
  also have "\<dots> = (2 * length xs + length xs * (length xs - 1)) div 2" by simp
  also have "2 * length xs + length xs * (length xs - 1) = Suc (length xs) * length xs"
    by (cases "length xs") simp_all
  finally show ?case by simp
qed

lemma set_combinations2: "set (combinations2 xs) \<subseteq> set xs \<times> set xs"
  by (induction xs) auto

lemma distinct_combinations2: "distinct xs \<Longrightarrow> distinct (combinations2 xs)"
proof (induction xs)
  case Nil then show ?case by simp
next
  case (Cons x xs)
  have "distinct (map (Pair x) xs)" using Cons.prems by (simp add: distinct_map inj_on_def)
  moreover have "set (map (Pair x) xs) \<inter> set (combinations2 xs) = {}"
    using set_combinations2[of xs] Cons.prems by auto
  ultimately show ?case using Cons by simp
qed

lemma combinations2_ordered:
  "sorted xs \<Longrightarrow> distinct xs \<Longrightarrow> p \<in> set (combinations2 xs) \<Longrightarrow> fst p < snd p"
proof (induction xs)
  case Nil then show ?case by simp
next
  case (Cons x xs)
  then show ?case by (auto simp: less_le)
qed

lemma sorted_combinations2:
  "sorted xs \<Longrightarrow> distinct xs \<Longrightarrow> sorted (combinations2 xs)"
proof (induction xs)
  case Nil then show ?case by simp
next
  case (Cons x xs)
  have a: "sorted (map (Pair x) xs)" using Cons.prems
    by (induction xs) (auto simp: less_eq_prod_def)
  have b: "\<forall>p\<in>set (map (Pair x) xs). \<forall>q\<in>set (combinations2 xs). p \<le> q"
    using set_combinations2[of xs] Cons.prems by (auto simp: less_eq_prod_def less_le)
  show ?case using a b Cons by (simp add: sorted_append)
qed

lemma append_le_same_length:
  "length a = length c \<Longrightarrow> (a @ x \<le> c @ y) = (a < c \<or> (a = c \<and> x \<le> (y::'a::linorder list)))"
proof (induction a arbitrary: c)
  case Nil then show ?case by simp
next
  case (Cons u a)
  then obtain v c' where c: "c = v # c'" "length a = length c'" by (cases c) auto
  show ?case using Cons.IH[OF c(2)] unfolding c by (auto simp: less_le)
qed


lemma sorted_map_mono_on:
  "sorted ys \<Longrightarrow> (\<And>p q. p \<in> set ys \<Longrightarrow> q \<in> set ys \<Longrightarrow> p \<le> q \<Longrightarrow> f p \<le> f q)
     \<Longrightarrow> sorted (map f ys)"
  by (induction ys) auto

lemma sorted_join:
  assumes "sorted xs" "distinct xs" "\<forall>d\<in>set xs. length d = n"
  shows "sorted (map (\<lambda>date12. fst date12 @ ''-'' @ snd date12) (combinations2 (xs::string list)))"
proof -
  have mono: "p \<le> q \<Longrightarrow> fst p @ ''-'' @ snd p \<le> fst q @ ''-'' @ snd q"
    if "p \<in> set xs \<times> set xs" "q \<in> set xs \<times> set xs" for p q
  proof -
    assume pq: "p \<le> q"
    have l: "length (fst p) = length (fst q)" using that assms(3) by auto
    show ?thesis using pq unfolding append_le_same_length[OF l]
      by (auto simp: less_eq_prod_def)
  qed
  have "sorted (combinations2 xs)" using assms sorted_combinations2 by blast
  then show ?thesis
  proof (rule sorted_map_mono_on)
    fix p q assume "p \<in> set (combinations2 xs)" "q \<in> set (combinations2 xs)" "p \<le> q"
    then show "fst p @ ''-'' @ snd p \<le> fst q @ ''-'' @ snd q"
      using set_combinations2[of xs] mono[of p q] by blast
  qed
qed

lemma inj_join:
  assumes "\<forall>d\<in>set xs. length d = n"
  shows "inj_on (\<lambda>date12. fst date12 @ ''-'' @ snd date12) (set xs \<times> set (xs::string list))"
  using assms by (auto simp: inj_on_def)

lemma combinations2_map: "combinations2 (map f xs) = map (map_prod f f) (combinations2 xs)"
  by (induction xs) auto

lemma length_yymmdd_str: "length d = 6 \<or> length d = 8 \<Longrightarrow> length (yymmdd_str (yyyymmdd_str d)) = 6"
  by (auto simp: yymmdd_str_def yyyymmdd_str_def yymmdd2yyyymmdd_def)

text \<open>
  Claim C5, as amended.  For a date list of 6- or 8-character dates whose 6-digit forms are
  pairwise distinct, \<open>select_pairs_all\<close> returns \<open>n (n - 1) / 2\<close> pairwise distinct
  identifiers; each is the join of the 6-digit forms of two dates taken from the sorted
  8-digit list, the earlier date first; the pairs are in lexicographic order of their
  8-digit dates (chronological order); and the returned 6-digit identifiers are sorted as
  strings whenever the 6-digit forms of the sorted dates are themselves in ascending order
  (all dates in one century).
\<close>

theorem select_pairs_all_chronological:
  assumes len: "\<forall>d\<in>set date_list. length d = 6 \<or> length d = 8"
    and uniq: "distinct (yymmdd (yyyymmdd date_list))"
  shows "length (select_pairs_all date_list) = length date_list * (length date_list - 1) div 2
    \<and> distinct (select_pairs_all date_list)
    \<and> select_pairs_all date_list =
          map (\<lambda>p. yymmdd_str (fst p) @ ''-'' @ yymmdd_str (snd p))
            (combinations2 (sort (yyyymmdd date_list)))
    \<and> (\<forall>p\<in>set (combinations2 (sort (yyyymmdd date_list))). fst p < snd p)
    \<and> sorted (combinations2 (sort (yyyymmdd date_list)))
    \<and> (sorted (yymmdd (sort (yyyymmdd date_list))) \<longrightarrow> sorted (select_pairs_all date_list))"
proof -
  let ?d8 = "sort (yyyymmdd date_list)"
  let ?d6 = "yymmdd ?d8"
  let ?join = "\<lambda>date12::string \<times> string. fst date12 @ ''-'' @ snd date12"
  have spa: "select_pairs_all date_list = map ?join (combinations2 ?d6)"
    by (simp add: select_pairs_all_def Let_def)
  have d6: "distinct ?d6" using uniq by (simp add: yymmdd_def distinct_map)
  then have d8: "distinct ?d8" by (simp add: yymmdd_def distinct_map)
  have l6: "\<forall>d\<in>set ?d6. length d = 6"
    using len length_yymmdd_str by (auto simp: yymmdd_def yyyymmdd_def)
  have c1: "length (select_pairs_all date_list) = length date_list * (length date_list - 1) div 2"
    by (simp add: spa length_combinations2 yymmdd_def yyyymmdd_def)
  have "inj_on ?join (set (combinations2 ?d6))"
    using inj_join[OF l6] set_combinations2[of ?d6] by (rule inj_on_subset)
  then have c2: "distinct (select_pairs_all date_list)"
    unfolding spa using distinct_combinations2[OF d6] by (simp add: distinct_map)
  have c3: "select_pairs_all date_list =
          map (\<lambda>p. yymmdd_str (fst p) @ ''-'' @ yymmdd_str (snd p)) (combinations2 ?d8)"
    unfolding spa by (simp add: yymmdd_def combinations2_map)
  have c4: "\<forall>p\<in>set (combinations2 ?d8). fst p < snd p"
    using combinations2_ordered[of ?d8] d8 by simp
  have c5: "sorted (combinations2 ?d8)" using sorted_combinations2[of ?d8] d8 by simp
  have c6: "sorted ?d6 \<longrightarrow> sorted (select_pairs_all date_list)"
    unfolding spa using sorted_join[OF _ d6 l6] by blast
  show ?thesis using c1 c2 c3 c4 c5 c6 by blast
qed

theorem select_pairs_all_chronological_witness:
  "length (select_pairs_all [''170125'', ''20170101'', ''170113'']) = 3
   \<and> distinct (select_pairs_all [''170125'', ''20170101'', ''170113''])
   \<and> sorted (select_pairs_all [''170125'', ''20170101'', ''170113''])"
proof -
  have h1: "\<forall>d\<in>set [''170125'', ''20170101'', ''170113'']. length d = 6 \<or> length d = 8"
    by simp
  have h2: "distinct (yymmdd (yyyymmdd [''170125'', ''20170101'', ''170113'']))"
    by code_simp
  have h3: "sorted (yymmdd (sort (yyyymmdd [''170125'', ''20170101'', ''170113''])))"
    by code_simp
  note t = select_pairs_all_chronological[OF h1 h2]
  from t have "length (select_pairs_all [''170125'', ''20170101'', ''170113''])
      = length [''170125'', ''20170101'', ''170113'']
        * (length [''170125'', ''20170101'', ''170113''] - 1) div 2"
    by (rule conjunct1)
  then have a: "length (select_pairs_all [''170125'', ''20170101'', ''170113'']) = 3" by simp
  from t have b: "distinct (select_pairs_all [''170125'', ''20170101'', ''170113''])" by blast
  from t h3 have c: "sorted (select_pairs_all [''170125'', ''20170101'', ''170113''])" by blast
  from a b c show ?thesis by blast
qed

text \<open>
  Claim C5 as stated fails across the century boundary: the dates are sorted in their
  8-digit form and then truncated, so the identifiers of 1999 follow chronologically but
  not lexicographically before those of 2000.
\<close>

theorem select_pairs_all_sorted_counterexample:
  "select_pairs_all [''991201'', ''000101'', ''000201'']
     = [''991201-000101'', ''991201-000201'', ''000101-000201'']
   \<and> \<not> sorted (select_pairs_all [''991201'', ''000101'', ''000201''])"
  by code_simp

section \<open>The date list derived from a pair list\<close>

lemma dates_of_pairs_Inr:
  assumes "\<forall>x\<in>set L. 2 \<le> length (str_split CHR ''-'' x)"
  shows "dates_of_pairs L =
     Inr (sort (yyyymmdd (remdups (map (\<lambda>x. str_split CHR ''-'' x ! 0) L
                                    @ map (\<lambda>x. str_split CHR ''-'' x ! 1) L))))"
proof -
  have m: "mapE (\<lambda>date12. getitem (str_split CHR ''-'' date12) 0) L
             = Inr (map (\<lambda>x. str_split CHR ''-'' x ! 0) L)"
    by (rule mapE_Inr_map) (use assms in \<open>auto simp: getitem_def\<close>)
  have s: "mapE (\<lambda>date12. getitem (str_split CHR ''-'' date12) 1) L
             = Inr (map (\<lambda>x. str_split CHR ''-'' x ! 1) L)"
    by (rule mapE_Inr_map) (use assms in \<open>auto simp: getitem_def\<close>)
  show ?thesis unfolding dates_of_pairs_def m s by simp
qed

lemma dates_of_pairs_Inr_D:
  assumes "dates_of_pairs L = Inr D"
  shows "\<forall>x\<in>set L. 2 \<le> length (str_split CHR ''-'' x)"
proof
  fix x assume x: "x \<in> set L"
  from assms obtain ss where
    "mapE (\<lambda>date12. getitem (str_split CHR ''-'' date12) 1) L = Inr ss"
    by (auto simp: dates_of_pairs_def bind_eq_Inr)
  from mapE_Inr_all[OF this x] show "2 \<le> length (str_split CHR ''-'' x)"
    by (auto simp: getitem_def split: if_splits)
qed

lemma set_dates_of_pairs:
  assumes "dates_of_pairs L = Inr D"
  shows "set D = yyyymmdd_str ` ((\<lambda>x. str_split CHR ''-'' x ! 0) ` set L
                                   \<union> (\<lambda>x. str_split CHR ''-'' x ! 1) ` set L)"
proof -
  have "dates_of_pairs L = Inr (sort (yyyymmdd (remdups (map (\<lambda>x. str_split CHR ''-'' x ! 0) L
                                    @ map (\<lambda>x. str_split CHR ''-'' x ! 1) L))))"
    by (rule dates_of_pairs_Inr) (rule dates_of_pairs_Inr_D[OF assms])
  with assms show ?thesis by (auto simp: yyyymmdd_def)
qed

lemma index_date6:
  assumes len: "\<forall>d\<in>DS. length d \<noteq> 8" and d1: "d1 \<in> DS" and D: "set D = yyyymmdd_str ` DS"
  shows "\<exists>i. index (yymmdd D) d1 = Inr i \<and> i < length D \<and> D ! i = yyyymmdd_str d1"
proof -
  have rt: "yymmdd_str (yyyymmdd_str d) = d" if "d \<in> DS" for d
    using len that by (simp add: yymmdd_yyyymmdd_str)
  have "yyyymmdd_str d1 \<in> set D" unfolding D using d1 by (rule imageI)
  then have "yymmdd_str (yyyymmdd_str d1) \<in> yymmdd_str ` set D" by (rule imageI)
  then have "d1 \<in> set (yymmdd D)" by (simp add: rt[OF d1] yymmdd_def)
  from index_Inr_mem[OF this] obtain i where i: "index (yymmdd D) d1 = Inr i" ..
  have il: "i < length D" using index_Inr_D[OF i] by (simp add: yymmdd_def)
  have e: "yymmdd_str (D ! i) = d1" using index_Inr_D[OF i] il by (simp add: yymmdd_def)
  have "D ! i \<in> yyyymmdd_str ` DS" using il unfolding D[symmetric] by simp
  then obtain d where d: "d \<in> DS" "D ! i = yyyymmdd_str d" by (rule imageE)
  have "yymmdd_str (D ! i) = d" unfolding d(2) by (rule rt[OF d(1)])
  then have "d = d1" using e by simp
  then show ?thesis using i il d(2) by simp
qed

lemma date_list2tbase_Inr:
  assumes "\<forall>e\<in>set D. \<exists>a. strptime (yyyymmdd_str e) = Some a"
  shows "\<exists>c. date_list2tbase strptime D
             = Inr (map (\<lambda>e. the (strptime (yyyymmdd_str e)) - c) D)"
proof -
  have "mapE (\<lambda>i. case strptime i of None \<Rightarrow> Inl ValueError | Some d \<Rightarrow> Inr d) (yyyymmdd D)
          = Inr (map (\<lambda>i. the (strptime i)) (yyyymmdd D))"
    by (rule mapE_Inr_map) (use assms in \<open>auto simp: yyyymmdd_def\<close>)
  then show ?thesis
    by (auto simp: date_list2tbase_def Let_def yyyymmdd_def comp_def)
qed

lemma date_list2tbase_Inr_D:
  assumes "date_list2tbase strptime D = Inr T" and "e \<in> set D"
  shows "\<exists>a. strptime (yyyymmdd_str e) = Some a"
proof -
  from assms(1) obtain ds where
    "mapE (\<lambda>i. case strptime i of None \<Rightarrow> Inl ValueError | Some d \<Rightarrow> Inr d) (yyyymmdd D) = Inr ds"
    by (auto simp: date_list2tbase_def Let_def bind_eq_Inr)
  moreover have "yyyymmdd_str e \<in> set (yyyymmdd D)" using assms(2) by (simp add: yyyymmdd_def)
  ultimately show ?thesis using mapE_Inr_all by (fastforce split: option.splits)
qed

lemma seasonal_test: "(real_of_int t / 30 \<in> set [11, 12]) = (t = 330 \<or> t = 360)"
proof -
  have a: "(real_of_int t / 30 = 11) = (t = 330)"
    by (simp add: field_simps)
  have b: "(real_of_int t / 30 = 12) = (t = 360)"
    by (simp add: field_simps)
  show ?thesis using a b by simp
qed

section \<open>The temporal-baseline filter in closed form\<close>

lemma temporal_baseline_of_Some:
  assumes "temporal_baseline_of strptime x \<noteq> None"
  obtains d1 d2 a b where "str_split CHR ''-'' x = [d1, d2]" "length d1 \<noteq> 8" "length d2 \<noteq> 8"
    "strptime (yyyymmdd_str d1) = Some a" "strptime (yyyymmdd_str d2) = Some b"
    "temporal_baseline_of strptime x = Some \<bar>a - b\<bar>"
  using assms unfolding temporal_baseline_of_def
  by (auto split: list.splits if_splits option.splits)

lemma threshold_temporal_baseline_success:
  assumes wf: "\<forall>x\<in>set L. temporal_baseline_of strptime x \<noteq> None"
  shows "threshold_temporal_baseline strptime L bmax ks bmin
           = Inr (filter (temporal_keep strptime bmax ks bmin) L)"
proof (cases "L = []")
  case True
  then show ?thesis by (simp add: threshold_temporal_baseline_def)
next
  case False
  let ?DS = "(\<lambda>x. str_split CHR ''-'' x ! 0) ` set L \<union> (\<lambda>x. str_split CHR ''-'' x ! 1) ` set L"
  have two: "\<forall>x\<in>set L. 2 \<le> length (str_split CHR ''-'' x)"
  proof
    fix x assume "x \<in> set L"
    then have "temporal_baseline_of strptime x \<noteq> None" using wf by simp
    then show "2 \<le> length (str_split CHR ''-'' x)"
      by (rule temporal_baseline_of_Some) simp
  qed
  obtain D where D: "dates_of_pairs L = Inr D" using dates_of_pairs_Inr[OF two] by simp
  have setD: "set D = yyyymmdd_str ` ?DS" by (rule set_dates_of_pairs[OF D])
  have ds: "length d \<noteq> 8 \<and> (\<exists>a. strptime (yyyymmdd_str d) = Some a)" if "d \<in> ?DS" for d
  proof -
    from that obtain x where x: "x \<in> set L"
      and d: "d = str_split CHR ''-'' x ! 0 \<or> d = str_split CHR ''-'' x ! 1" by auto
    from x have "temporal_baseline_of strptime x \<noteq> None" using wf by simp
    then obtain d1 d2 a b where "str_split CHR ''-'' x = [d1, d2]"
      "length d1 \<noteq> 8" "length d2 \<noteq> 8"
      "strptime (yyyymmdd_str d1) = Some a" "strptime (yyyymmdd_str d2) = Some b"
      by (rule temporal_baseline_of_Some)
    then show ?thesis using d by auto
  qed
  have len: "\<forall>d\<in>?DS. length d \<noteq> 8" using ds by simp
  have "\<forall>e\<in>set D. \<exists>a. strptime (yyyymmdd_str e) = Some a"
  proof
    fix e assume "e \<in> set D"
    then obtain d where "d \<in> ?DS" "e = yyyymmdd_str d" unfolding setD by (rule imageE)
    then show "\<exists>a. strptime (yyyymmdd_str e) = Some a"
      using ds[of d] by (simp add: yyyymmdd_str_idem)
  qed
  from date_list2tbase_Inr[OF this] obtain c where
    T: "date_list2tbase strptime D = Inr (map (\<lambda>e. the (strptime (yyyymmdd_str e)) - c) D)" ..
  let ?T = "map (\<lambda>e. the (strptime (yyyymmdd_str e)) - c) D"
  let ?p = "\<lambda>date12.
          bind (unpack2 (str_split CHR ''-'' date12)) (\<lambda>(date1, date2).
          bind (index (yymmdd D) date1) (\<lambda>idx1.
          bind (index (yymmdd D) date2) (\<lambda>idx2.
            let tbase = \<bar>?T ! idx1 - ?T ! idx2\<bar> in
            Inr (if bmin \<le> real_of_int tbase \<and> real_of_int tbase \<le> bmax then True
                 else if ks \<and> real_of_int tbase / 30 \<in> set [11, 12] then True
                 else False))))"
  have p: "?p x = Inr (temporal_keep strptime bmax ks bmin x)" if x: "x \<in> set L" for x
  proof -
    from x have "temporal_baseline_of strptime x \<noteq> None" using wf by simp
    then obtain d1 d2 a b where s: "str_split CHR ''-'' x = [d1, d2]"
      and a: "strptime (yyyymmdd_str d1) = Some a" and b: "strptime (yyyymmdd_str d2) = Some b"
      and tb: "temporal_baseline_of strptime x = Some \<bar>a - b\<bar>"
      by (rule temporal_baseline_of_Some)
    have "d1 \<in> ?DS" using x s by force
    from index_date6[OF len this setD] obtain i where
      i: "index (yymmdd D) d1 = Inr i" "i < length D" "D ! i = yyyymmdd_str d1" by auto
    have "d2 \<in> ?DS" using x s by force
    from index_date6[OF len this setD] obtain j where
      j: "index (yymmdd D) d2 = Inr j" "j < length D" "D ! j = yyyymmdd_str d2" by auto
    have Ti: "?T ! i = a - c" using i a by (simp add: yyyymmdd_str_idem)
    have Tj: "?T ! j = b - c" using j b by (simp add: yyyymmdd_str_idem)
    have t: "\<bar>?T ! i - ?T ! j\<bar> = \<bar>a - b\<bar>" unfolding Ti Tj by simp
    have "?p x = Inr (if bmin \<le> real_of_int \<bar>a - b\<bar> \<and> real_of_int \<bar>a - b\<bar> \<le> bmax then True
                 else if ks \<and> real_of_int \<bar>a - b\<bar> / 30 \<in> set [11, 12] then True
                 else False)"
      unfolding s unpack2.simps bind_Inr prod.case i(1) j(1) Let_def t ..
    also have "\<dots> = Inr (temporal_keep strptime bmax ks bmin x)"
      unfolding seasonal_test temporal_keep_def tb by auto
    finally show ?thesis .
  qed
  have "threshold_temporal_baseline strptime L bmax ks bmin = filterE ?p L"
    using False by (simp add: threshold_temporal_baseline_def D T Let_def)
  also have "\<dots> = Inr (filter (temporal_keep strptime bmax ks bmin) L)"
    using p by (rule filterE_Inr_filter)
  finally show ?thesis .
qed

lemma threshold_temporal_baseline_Inr_D:
  assumes F: "threshold_temporal_baseline strptime L bmax ks bmin = Inr R" and x: "x \<in> set L"
  shows "temporal_baseline_of strptime x \<noteq> None"
proof -
  have ne: "L \<noteq> []" using x by auto
  from F ne obtain D T where D: "dates_of_pairs L = Inr D"
    and T: "date_list2tbase strptime D = Inr T"
    and fe: "filterE (\<lambda>date12.
          bind (unpack2 (str_split CHR ''-'' date12)) (\<lambda>(date1, date2).
          bind (index (yymmdd D) date1) (\<lambda>idx1.
          bind (index (yymmdd D) date2) (\<lambda>idx2.
            let tbase = \<bar>T ! idx1 - T ! idx2\<bar> in
            Inr (if bmin \<le> real_of_int tbase \<and> real_of_int tbase \<le> bmax then True
                 else if ks \<and> real_of_int tbase / 30 \<in> set [11, 12] then True
                 else False))))) L = Inr R"
    unfolding threshold_temporal_baseline_def by (simp add: bind_eq_Inr Let_def) blast
  from filterE_Inr_all[OF fe x] obtain d1 d2 i j where s: "str_split CHR ''-'' x = [d1, d2]"
    and i: "index (yymmdd D) d1 = Inr i" and j: "index (yymmdd D) d2 = Inr j"
    by (auto simp: bind_eq_Inr unpack2_eq_Inr)
  have setD: "set D = yyyymmdd_str ` ((\<lambda>x. str_split CHR ''-'' x ! 0) ` set L
                                   \<union> (\<lambda>x. str_split CHR ''-'' x ! 1) ` set L)"
    by (rule set_dates_of_pairs[OF D])
  have l8: "length d \<noteq> 8" if "index (yymmdd D) d = Inr k" for d k
  proof -
    from index_Inr_D[OF that] have "d = yymmdd_str (D ! k)" by (auto simp: yymmdd_def)
    then show ?thesis by (simp add: length_yymmdd_str_neq_8)
  qed
  have inD: "yyyymmdd_str d1 \<in> set D" "yyyymmdd_str d2 \<in> set D"
    unfolding setD using x s by force+
  from date_list2tbase_Inr_D[OF T inD(1)] obtain a where
    a: "strptime (yyyymmdd_str d1) = Some a" by (auto simp: yyyymmdd_str_idem)
  from date_list2tbase_Inr_D[OF T inD(2)] obtain b where
    b: "strptime (yyyymmdd_str d2) = Some b" by (auto simp: yyyymmdd_str_idem)
  show ?thesis using s l8[OF i] l8[OF j] a b by (simp add: temporal_baseline_of_def)
qed

lemma threshold_temporal_baseline_idem:
  assumes "threshold_temporal_baseline strptime L bmax ks bmin = Inr R"
  shows "threshold_temporal_baseline strptime R bmax ks bmin = Inr R"
proof -
  have wf: "\<forall>x\<in>set L. temporal_baseline_of strptime x \<noteq> None"
    using threshold_temporal_baseline_Inr_D[OF assms] by blast
  have R: "R = filter (temporal_keep strptime bmax ks bmin) L"
    using assms threshold_temporal_baseline_success[OF wf, of bmax ks bmin] by simp
  have "\<forall>x\<in>set R. temporal_baseline_of strptime x \<noteq> None" using wf R by simp
  from threshold_temporal_baseline_success[OF this, of bmax ks bmin]
  show ?thesis by (simp add: R)
qed

section \<open>Idempotence of the perpendicular-baseline and Doppler filters\<close>

lemma sort_map_remdups_cong:
  assumes "set xs = set ys"
  shows "sort (map f (remdups xs)) = sort (map f (remdups ys))"
proof -
  have "mset (remdups xs) = mset (remdups ys)"
    using assms by (simp add: set_eq_iff_mset_remdups_eq)
  then have "mset (map f (remdups xs)) = mset (map f (remdups ys))" by simp
  then have "mset (sort (map f (remdups xs))) = mset (map f (remdups ys))" by simp
  then show ?thesis by (rule properties_for_sort[symmetric]) simp
qed

lemma dates_of_pairs_sublist:
  assumes L: "dates_of_pairs L = Inr DL" and sub: "set R \<subseteq> set L"
  shows "\<exists>DR. dates_of_pairs R = Inr DR \<and> (length DR = length DL \<longrightarrow> DR = DL)"
proof -
  let ?X = "\<lambda>L. map (\<lambda>x. str_split CHR ''-'' x ! 0) L @ map (\<lambda>x. str_split CHR ''-'' x ! 1) L"
  have twoL: "\<forall>x\<in>set L. 2 \<le> length (str_split CHR ''-'' x)" by (rule dates_of_pairs_Inr_D[OF L])
  then have twoR: "\<forall>x\<in>set R. 2 \<le> length (str_split CHR ''-'' x)" using sub by blast
  have DL: "DL = sort (yyyymmdd (remdups (?X L)))" using dates_of_pairs_Inr[OF twoL] L by simp
  have DR: "dates_of_pairs R = Inr (sort (yyyymmdd (remdups (?X R))))"
    by (rule dates_of_pairs_Inr[OF twoR])
  have ss: "set (?X R) \<subseteq> set (?X L)" using sub by auto
  have "sort (yyyymmdd (remdups (?X R))) = DL"
    if eq: "length (sort (yyyymmdd (remdups (?X R)))) = length DL"
  proof -
    have "card (set (?X R)) = card (set (?X L))"
      using eq unfolding DL by (simp add: yyyymmdd_def length_remdups_card_conv)
    then have "set (?X R) = set (?X L)" using ss by (simp add: card_subset_eq)
    then show ?thesis unfolding DL yyyymmdd_def by (rule sort_map_remdups_cong)
  qed
  then show ?thesis using DR by blast
qed

lemma threshold_perp_baseline_idem:
  assumes F: "snd (threshold_perp_baseline L dl pb pmax pmin) = Inr R"
  shows "snd (threshold_perp_baseline R dl pb pmax pmin) = Inr R"
proof (cases "R = []")
  case True
  then show ?thesis by (simp add: threshold_perp_baseline_def)
next
  case R: False
  then have L: "L \<noteq> []" using F by (auto simp: threshold_perp_baseline_def)
  show ?thesis
  proof (cases "dl = []")
    case False
    then have "perp_loop L dl pb pmax pmin = Inr R"
      using F L by (simp add: threshold_perp_baseline_def)
    then have "perp_loop R dl pb pmax pmin = Inr R"
      unfolding perp_loop_def Let_def by (rule filterE_idem)
    then show ?thesis
      using False R by (simp add: threshold_perp_baseline_def)
  next
    case True
    from F L True obtain DL where DL: "dates_of_pairs L = Inr DL"
      by (cases "dates_of_pairs L") (simp_all add: threshold_perp_baseline_def)
    show ?thesis
    proof (cases "length DL = length pb")
      case False
      then have "R = L" using F L True DL by (simp add: threshold_perp_baseline_def)
      then show ?thesis using F by simp
    next
      case eq: True
      then have loop: "perp_loop L DL pb pmax pmin = Inr R"
        using F L True DL by (simp add: threshold_perp_baseline_def)
      then have "set R \<subseteq> set L"
        unfolding perp_loop_def Let_def by (auto dest!: filterE_Inr_eq)
      from dates_of_pairs_sublist[OF DL this] obtain DR where
        DR: "dates_of_pairs R = Inr DR" "length DR = length DL \<longrightarrow> DR = DL" by blast
      show ?thesis
      proof (cases "length DR = length pb")
        case False
        then show ?thesis using R True DR(1) by (simp add: threshold_perp_baseline_def)
      next
        case True
        then have "DR = DL" using DR(2) eq by simp
        moreover have "perp_loop R DL pb pmax pmin = Inr R"
          using loop unfolding perp_loop_def Let_def by (rule filterE_idem)
        ultimately show ?thesis
          using R \<open>dl = []\<close> DR(1) eq by (simp add: threshold_perp_baseline_def)
      qed
    qed
  qed
qed

lemma threshold_doppler_overlap_idem:
  assumes F: "snd (threshold_doppler_overlap L dl dop bw omin) = Inr R"
  shows "snd (threshold_doppler_overlap R dl dop bw omin) = Inr R"
proof (cases "R = []")
  case True
  then show ?thesis by (simp add: threshold_doppler_overlap_def)
next
  case R: False
  then have L: "L \<noteq> []" using F by (auto simp: threshold_doppler_overlap_def)
  have dl: "dl \<noteq> []"
    using F L by (auto simp: threshold_doppler_overlap_def pbase_list_unbound_def
        split: sum.splits)
  then have "doppler_loop L dl dop bw omin = Inr R"
    using F L by (simp add: threshold_doppler_overlap_def)
  then have "doppler_loop R dl dop bw omin = Inr R"
    unfolding doppler_loop_def Let_def by (rule filterE_idem)
  then show ?thesis using dl R by (simp add: threshold_doppler_overlap_def)
qed

section \<open>Concrete evaluations\<close>

lemma strptime_days_examples:
  "strptime_days ''20170101'' = Some 736330"
  "strptime_days ''20170113'' = Some 736342"
  "strptime_days ''20171207'' = Some 736670"
  by (simp_all add: strptime_days_def digit_of_def days_before_year_def days_before_month_def
      days_in_month_def is_leap_def upt_rec)

lemma str_split_examples:
  "str_split CHR ''-'' ''170101-170113'' = [''170101'', ''170113'']"
  "str_split CHR ''-'' ''170101-171207'' = [''170101'', ''171207'']"
  by code_simp+

lemma temporal_baseline_of_examples:
  "temporal_baseline_of strptime_days ''170101-170113'' = Some 12"
  "temporal_baseline_of strptime_days ''170101-171207'' = Some 340"
  by (simp_all add: temporal_baseline_of_def str_split_examples yyyymmdd_str_def
      yymmdd2yyyymmdd_def strptime_days_examples)

section \<open>Claims about the threshold filters\<close>

text \<open>
  Claim C1, at a failing input.  The pair 170101-171207 has a temporal baseline of 340
  days, inside the seasonal band of 330 to 390 days, and \<open>keep_seasonal\<close> is set; with
  \<open>btemp_max = 200\<close> the filter drops it, because \<open>tbase/30 in [11, 12]\<close> holds only for
  330 and 360 days under true division.
\<close>

theorem threshold_temporal_baseline_drops_340:
  "temporal_baseline_of strptime_days ''170101-171207'' = Some 340
   \<and> threshold_temporal_baseline strptime_days [''170101-171207''] 200 True 0 = Inr []"
proof -
  have "\<forall>x\<in>set [''170101-171207'']. temporal_baseline_of strptime_days x \<noteq> None"
    by (simp add: temporal_baseline_of_examples)
  from threshold_temporal_baseline_success[OF this, of 200 True 0]
  show ?thesis by (simp add: temporal_keep_def temporal_baseline_of_examples)
qed

text \<open>
  Claim C6.  Each of the three threshold filters is idempotent: when an application to
  \<open>L\<close> returns the list \<open>R\<close>, the application to \<open>R\<close> with the same parameters returns
  \<open>R\<close> again.
\<close>

theorem threshold_filters_idempotent:
  "(threshold_temporal_baseline strptime Lt btemp_max keep_seasonal btemp_min = Inr Rt
      \<longrightarrow> threshold_temporal_baseline strptime Rt btemp_max keep_seasonal btemp_min = Inr Rt)
   \<and> (snd (threshold_perp_baseline Lp date_list_p pbase_list pbase_max pbase_min) = Inr Rp
      \<longrightarrow> snd (threshold_perp_baseline Rp date_list_p pbase_list pbase_max pbase_min) = Inr Rp)
   \<and> (snd (threshold_doppler_overlap Ld date_list_d dop_list bandwidth_az dop_overlap_min)
          = Inr Rd
      \<longrightarrow> snd (threshold_doppler_overlap Rd date_list_d dop_list bandwidth_az dop_overlap_min)
            = Inr Rd)"
  using threshold_temporal_baseline_idem threshold_perp_baseline_idem
    threshold_doppler_overlap_idem by blast

theorem threshold_filters_idempotent_witness:
  "threshold_temporal_baseline strptime_days [''170101-170113'', ''170101-171207''] 200 True 0
     = Inr [''170101-170113'']
   \<and> threshold_temporal_baseline strptime_days [''170101-170113''] 200 True 0
     = Inr [''170101-170113'']
   \<and> snd (threshold_perp_baseline [''170101-170113'', ''170101-170125''] [] [0, 10, 200] 100 0)
     = Inr [''170101-170113'']
   \<and> snd (threshold_perp_baseline [''170101-170113''] [] [0, 10, 200] 100 0)
     = Inr [''170101-170113'']
   \<and> snd (threshold_doppler_overlap [''170101-170113'', ''170101-170125'']
         [''20170101'', ''20170113'', ''20170125''] [[30, 0, 0], [60, 0, 0], [1200, 0, 0]]
         1000 0.15)
     = Inr [''170101-170113'']
   \<and> snd (threshold_doppler_overlap [''170101-170113'']
         [''20170101'', ''20170113'', ''20170125''] [[30, 0, 0], [60, 0, 0], [1200, 0, 0]]
         1000 0.15)
     = Inr [''170101-170113'']"
proof -
  have "\<forall>x\<in>set [''170101-170113'', ''170101-171207''].
          temporal_baseline_of strptime_days x \<noteq> None"
    by (simp add: temporal_baseline_of_examples)
  from threshold_temporal_baseline_success[OF this, of 200 True 0]
  have t: "threshold_temporal_baseline strptime_days [''170101-170113'', ''170101-171207'']
             200 True 0 = Inr [''170101-170113'']"
    by (simp add: temporal_keep_def temporal_baseline_of_examples)
  have p: "snd (threshold_perp_baseline [''170101-170113'', ''170101-170125''] []
                 [0, 10, 200] 100 0) = Inr [''170101-170113'']"
    by code_simp
  have d: "snd (threshold_doppler_overlap [''170101-170113'', ''170101-170125'']
         [''20170101'', ''20170113'', ''20170125''] [[30, 0, 0], [60, 0, 0], [1200, 0, 0]]
         1000 0.15) = Inr [''170101-170113'']"
    by code_simp
  note i = threshold_filters_idempotent[of strptime_days
      "[''170101-170113'', ''170101-171207'']" 200 True 0 "[''170101-170113'']"
      "[''170101-170113'', ''170101-170125'']" "[]" "[0, 10, 200]" 100 0 "[''170101-170113'']"
      "[''170101-170113'', ''170101-170125'']" "[''20170101'', ''20170113'', ''20170125'']"
      "[[30, 0, 0], [60, 0, 0], [1200, 0, 0]]" 1000 "0.15" "[''170101-170113'']"]
  from i t p d show ?thesis by blast
qed

section \<open>Inconsistent date and baseline lists\<close>

lemma threshold_perp_baseline_skips:
  assumes "date12_list \<noteq> []" and "dates_of_pairs date12_list = Inr date_list"
    and "length date_list \<noteq> length pbase_list"
  shows "threshold_perp_baseline date12_list [] pbase_list pbase_max pbase_min
           = (skip_filtering_msgs, Inr date12_list)"
  using assms by (simp add: threshold_perp_baseline_def)

lemma threshold_doppler_overlap_raises:
  assumes "date12_list \<noteq> []"
  shows "\<exists>e. threshold_doppler_overlap date12_list [] dop_list bandwidth_az dop_overlap_min
           = ([], Inl e)"
  using assms
  by (cases "dates_of_pairs date12_list")
    (simp_all add: threshold_doppler_overlap_def pbase_list_unbound_def)

text \<open>
  Claim C8, at a failing input.  One pair gives two dates; with one Doppler entry and no
  date list, \<open>threshold_doppler_overlap\<close> neither logs nor returns its input: it raises
  NameError, as its length check reads \<open>pbase_list\<close>, which the function does not have.
  The perpendicular-baseline filter, on the same pair and one baseline, does what the claim
  says.
\<close>

theorem threshold_doppler_overlap_name_error:
  "dates_of_pairs [''170101-170113''] = Inr [''20170101'', ''20170113'']
   \<and> threshold_doppler_overlap [''170101-170113''] [] [[30, 0, 0]] 1000 0.15
       = ([], Inl NameError)
   \<and> threshold_perp_baseline [''170101-170113''] [] [0] 100 0
       = (skip_filtering_msgs, Inr [''170101-170113''])"
  by code_simp

section \<open>Doppler overlap\<close>

lemma doppler_at_cases:
  "doppler_at dop r = Inl IndexError \<or> (\<exists>v. doppler_at dop r = Inr v)"
  by (simp add: doppler_at_def getitem_def)

lemma doppler_diff_commute:
  "bind (doppler_at dop_a r) (\<lambda>da. bind (doppler_at dop_b r) (\<lambda>db. Inr \<bar>da - db\<bar>))
   = bind (doppler_at dop_b r) (\<lambda>db. bind (doppler_at dop_a r) (\<lambda>da. Inr \<bar>db - da\<bar>))"
  using doppler_at_cases[of dop_a r] doppler_at_cases[of dop_b r]
  by (auto simp: abs_minus_commute)

text \<open>
  Claim C10.  The Doppler overlap is symmetric in its two acquisitions, whatever the
  coefficient lists and the azimuth bandwidth are (both calls raise IndexError when one of
  the lists has fewer than three coefficients).
\<close>

theorem calculate_doppler_overlap_symmetric:
  "calculate_doppler_overlap dop_a dop_b bandwidth_az
   = calculate_doppler_overlap dop_b dop_a bandwidth_az"
  unfolding calculate_doppler_overlap_def Let_def doppler_diff_commute[of dop_a _ dop_b] ..

section \<open>The star strategy with an absent master date\<close>





section \<open>Symmetric updates of a square matrix\<close>

lemma square_nth: "square n mat \<Longrightarrow> a < n \<Longrightarrow> length (mat ! a) = n"
  by (simp add: square_def)

lemma square_set_entry:
  assumes "square n mat"
  shows "square n (set_entry mat i j v)"
proof (cases "i < length mat")
  case True
  have "length row = n" if "row \<in> set (mat[i := (mat ! i)[j := v]])" for row
  proof -
    from that have "row = (mat ! i)[j := v] \<or> row \<in> set mat"
      using set_update_subset_insert[of mat i "(mat ! i)[j := v]"] by blast
    then show ?thesis using assms True by (auto simp: square_def)
  qed
  then show ?thesis using assms by (simp add: square_def set_entry_def)
next
  case False
  then show ?thesis using assms by (simp add: set_entry_def list_update_beyond)
qed

lemma set_entry_nth:
  assumes "square n mat" "i < n" "j < n" "a < n"
  shows "set_entry mat i j v ! a ! b = (if a = i \<and> b = j then v else mat ! a ! b)"
  using assms by (auto simp: set_entry_def square_def nth_list_update)

lemma square_set_symmetric: "square n mat \<Longrightarrow> square n (set_symmetric mat e)"
  by (cases e) (simp add: set_symmetric_def square_set_entry)

lemma set_symmetric_nth:
  assumes "square n mat" "i < n" "j < n" "a < n"
  shows "set_symmetric mat (i, j, v) ! a ! b
           = (if (a = i \<and> b = j) \<or> (a = j \<and> b = i) then v else mat ! a ! b)"
proof -
  have sq: "square n (set_entry mat i j v)" using assms(1) by (rule square_set_entry)
  have e1: "set_symmetric mat (i, j, v) ! a ! b
          = (if a = j \<and> b = i then v else set_entry mat i j v ! a ! b)"
    unfolding set_symmetric_def prod.case by (rule set_entry_nth[OF sq assms(3,2,4)])
  have e2: "set_entry mat i j v ! a ! b = (if a = i \<and> b = j then v else mat ! a ! b)"
    by (rule set_entry_nth[OF assms])
  show ?thesis unfolding e1 e2
  proof (cases "a = j \<and> b = i")
    case True
    then show "(if a = j \<and> b = i then v else if a = i \<and> b = j then v else mat ! a ! b)
        = (if (a = i \<and> b = j) \<or> (a = j \<and> b = i) then v else mat ! a ! b)"
      by (simp only: if_True HOL.simp_thms)
  next
    case False
    then show "(if a = j \<and> b = i then v else if a = i \<and> b = j then v else mat ! a ! b)
        = (if (a = i \<and> b = j) \<or> (a = j \<and> b = i) then v else mat ! a ! b)"
      by (simp only: if_False HOL.simp_thms)
  qed
qed

lemma square_fold:
  "square n mat \<Longrightarrow> square n (fold (\<lambda>e m. set_symmetric m e) es mat)"
  by (induction es arbitrary: mat) (simp_all add: square_set_symmetric)

lemma fold_unchanged:
  assumes "square n mat" "a < n"
    and "\<forall>e\<in>set es. fst e < n \<and> fst (snd e) < n"
    and "\<forall>e\<in>set es. \<not> ((fst e = a \<and> fst (snd e) = b) \<or> (fst e = b \<and> fst (snd e) = a))"
  shows "fold (\<lambda>e m. set_symmetric m e) es mat ! a ! b = mat ! a ! b"
  using assms
proof (induction es arbitrary: mat)
  case Nil
  then show ?case by simp
next
  case (Cons e es)
  obtain i j v where e: "e = (i, j, v)" by (cases e)
  have sq: "square n (set_symmetric mat e)" using Cons.prems(1) by (rule square_set_symmetric)
  have "fold (\<lambda>e m. set_symmetric m e) (e # es) mat ! a ! b = set_symmetric mat e ! a ! b"
    using Cons.IH[OF sq Cons.prems(2)] Cons.prems(3,4) by simp
  also have "\<dots> = mat ! a ! b"
    using Cons.prems unfolding e by (auto simp: set_symmetric_nth)
  finally show ?case .
qed

lemma fold_stored:
  assumes sq: "square n mat" and i: "i < n" and j: "j < n"
    and es: "es = es1 @ (i, j, v) # es2"
    and bound: "\<forall>e\<in>set es. fst e < n \<and> fst (snd e) < n"
    and later: "\<forall>e\<in>set es2. \<not> ((fst e = i \<and> fst (snd e) = j) \<or> (fst e = j \<and> fst (snd e) = i))"
  shows "fold (\<lambda>e m. set_symmetric m e) es mat ! i ! j = v
       \<and> fold (\<lambda>e m. set_symmetric m e) es mat ! j ! i = v"
proof -
  let ?m1 = "fold (\<lambda>e m. set_symmetric m e) es1 mat"
  let ?m2 = "set_symmetric ?m1 (i, j, v)"
  have sq1: "square n ?m1" using sq by (rule square_fold)
  have sq2: "square n ?m2" using sq1 by (rule square_set_symmetric)
  have f: "fold (\<lambda>e m. set_symmetric m e) es mat = fold (\<lambda>e m. set_symmetric m e) es2 ?m2"
    by (simp add: es)
  have b2: "\<forall>e\<in>set es2. fst e < n \<and> fst (snd e) < n" using bound es by simp
  have later': "\<forall>e\<in>set es2. \<not> ((fst e = j \<and> fst (snd e) = i) \<or> (fst e = i \<and> fst (snd e) = j))"
    using later by blast
  have "fold (\<lambda>e m. set_symmetric m e) es2 ?m2 ! i ! j = ?m2 ! i ! j"
    by (rule fold_unchanged[OF sq2 i b2 later])
  moreover have "fold (\<lambda>e m. set_symmetric m e) es2 ?m2 ! j ! i = ?m2 ! j ! i"
    by (rule fold_unchanged[OF sq2 j b2 later'])
  moreover have "?m2 ! i ! j = v" "?m2 ! j ! i = v"
    using sq1 i j by (simp_all add: set_symmetric_nth)
  ultimately show ?thesis unfolding f by simp
qed

lemma fold_symmetric:
  assumes "square n mat" "a < n" "b < n"
    and "\<forall>e\<in>set es. fst e < n \<and> fst (snd e) < n"
    and "\<forall>a<n. \<forall>b<n. mat ! a ! b = mat ! b ! a"
  shows "fold (\<lambda>e m. set_symmetric m e) es mat ! a ! b
       = fold (\<lambda>e m. set_symmetric m e) es mat ! b ! a"
  using assms
proof (induction es arbitrary: mat)
  case Nil
  then show ?case by simp
next
  case (Cons e es)
  obtain i j v where e: "e = (i, j, v)" by (cases e)
  have ij: "i < n" "j < n" using Cons.prems(4) e by simp_all
  have sq: "square n (set_symmetric mat e)" using Cons.prems(1) by (rule square_set_symmetric)
  have sym: "\<forall>a<n. \<forall>b<n. set_symmetric mat e ! a ! b = set_symmetric mat e ! b ! a"
    using Cons.prems(1,5) ij unfolding e by (auto simp: set_symmetric_nth)
  show ?case using Cons.IH[OF sq Cons.prems(2,3) _ sym] Cons.prems(4) by simp
qed

lemma coherence_loop_fold:
  "mapE (coherence_entry N D C) rest = Inr es
     \<Longrightarrow> coherence_loop N D C rest mat = Inr (fold (\<lambda>e m. set_symmetric m e) es mat)"
proof (induction rest arbitrary: es mat)
  case Nil
  then show ?case by simp
next
  case (Cons x rest)
  then show ?case by (auto simp: bind_eq_Inr)
qed

section \<open>Splitting and joining pair identifiers\<close>

lemma str_split_sep_free: "p \<in> set (str_split c s) \<Longrightarrow> c \<notin> set p"
proof (induction s arbitrary: p)
  case Nil
  then show ?case by simp
next
  case (Cons x xs)
  show ?case
  proof (cases "x = c")
    case True
    then show ?thesis using Cons by auto
  next
    case False
    obtain q qs where q: "str_split c xs = q # qs"
      using str_split_nonempty[of c xs] by (cases "str_split c xs") auto
    have "c \<notin> set q" using Cons.IH[of q] q by simp
    moreover have "p = x # q \<or> p \<in> set qs" using Cons.prems False q by simp
    ultimately show ?thesis using False Cons.IH[of p] q by auto
  qed
qed

lemma str_split_no_sep: "c \<notin> set s \<Longrightarrow> str_split c s = [s]"
  by (induction s) auto

lemma str_split_join:
  "c \<notin> set m \<Longrightarrow> c \<notin> set s \<Longrightarrow> str_split c (m @ c # s) = [m, s]"
  by (induction m) (auto simp: str_split_no_sep)

lemma set_yymmdd_str: "set (yymmdd_str d) \<subseteq> set d"
proof -
  have "set (take 6 (drop 2 d)) \<subseteq> set d"
    using set_take_subset[of 6 "drop 2 d"] set_drop_subset[of 2 d] by (rule subset_trans)
  then show ?thesis using set_drop_subset[of 2 d] by (simp add: yymmdd_str_def)
qed

lemma yymmdd_str_idem: "length d \<noteq> 8 \<Longrightarrow> yymmdd_str d = d"
  by (simp add: yymmdd_str_def)

lemma replace_no_dash: "CHR ''-'' \<notin> set (str_replace CHR ''-'' CHR ''_'' s)"
  by (auto simp: str_replace_def)

lemma str_split_subset: "p \<in> set (str_split c s) \<Longrightarrow> set p \<subseteq> set s"
proof (induction s arbitrary: p)
  case Nil
  then show ?case by simp
next
  case (Cons x xs)
  show ?case
  proof (cases "x = c")
    case True
    then show ?thesis using Cons by auto
  next
    case False
    obtain q qs where q: "str_split c xs = q # qs"
      using str_split_nonempty[of c xs] by (cases "str_split c xs") auto
    have "set q \<subseteq> set xs" using Cons.IH[of q] q by simp
    moreover have "p = x # q \<or> p \<in> set qs" using Cons.prems False q by simp
    ultimately show ?thesis using False Cons.IH[of p] q by auto
  qed
qed

lemma split_replace_part:
  assumes "p \<in> set (str_split CHR ''_'' (str_replace CHR ''-'' CHR ''_'' x))"
  shows "CHR ''-'' \<notin> set (yymmdd_str p) \<and> length (yymmdd_str p) \<noteq> 8"
proof -
  have "set p \<subseteq> set (str_replace CHR ''-'' CHR ''_'' x)"
    using assms by (rule str_split_subset)
  then have "CHR ''-'' \<notin> set p" using replace_no_dash[of x] by blast
  then have "CHR ''-'' \<notin> set (yymmdd_str p)" using set_yymmdd_str[of p] by blast
  then show ?thesis by (simp add: length_yymmdd_str_neq_8)
qed

lemma str_split_one: "str_split c x = [s] \<Longrightarrow> x = s"
proof (induction x arbitrary: s)
  case Nil
  then show ?case by simp
next
  case (Cons a xs)
  obtain q qs where q: "str_split c xs = q # qs"
    using str_split_nonempty[of c xs] by (cases "str_split c xs") auto
  show ?case using Cons q by (auto split: if_splits)
qed

lemma str_split_two: "str_split c x = [m, s] \<Longrightarrow> x = m @ c # s"
proof (induction x arbitrary: m)
  case Nil
  then show ?case by simp
next
  case (Cons a xs)
  obtain q qs where q: "str_split c xs = q # qs"
    using str_split_nonempty[of c xs] by (cases "str_split c xs") auto
  show ?case
  proof (cases "a = c")
    case True
    then have "m = []" "str_split c xs = [s]" using Cons.prems by simp_all
    then show ?thesis using True str_split_one by auto
  next
    case False
    then have "m = a # q" "str_split c xs = [q, s]" using Cons.prems q by simp_all
    then show ?thesis using Cons.IH[of q] by simp
  qed
qed

lemma date12_okE:
  assumes "date12_ok x"
  obtains m s where "str_split CHR ''-'' x = [m, s]" "x = m @ ''-'' @ s"
    "length m \<noteq> 8" "length s \<noteq> 8" "CHR ''-'' \<notin> set m" "CHR ''-'' \<notin> set s"
proof -
  from assms obtain m s where sp: "str_split CHR ''-'' x = [m, s]"
    and l: "length m \<noteq> 8" "length s \<noteq> 8"
    unfolding date12_ok_def by (auto split: list.splits)
  have x: "x = m @ ''-'' @ s" using str_split_two[OF sp] by simp
  have "CHR ''-'' \<notin> set m" "CHR ''-'' \<notin> set s"
    using str_split_sep_free[of m "CHR ''-''" x] str_split_sep_free[of s "CHR ''-''" x] sp
    by simp_all
  then show ?thesis using that sp x l by blast
qed

lemma getitem_Inr_mem: "getitem xs i = Inr y \<Longrightarrow> y \<in> set xs"
  by (auto simp: getitem_def split: if_splits)

lemma mapE_getitem_parts:
  assumes "mapE (\<lambda>i. getitem (f i) k) L = Inr ps" and "p \<in> set ps"
  shows "\<exists>l\<in>set L. p \<in> set (f l)"
proof -
  have "list_all2 (\<lambda>x y. getitem (f x) k = Inr y) L ps"
    using assms(1) by (simp add: mapE_eq_Inr)
  then have l2: "length L = length ps" "\<forall>i<length ps. getitem (f (L ! i)) k = Inr (ps ! i)"
    by (simp_all add: list_all2_conv_all_nth)
  from assms(2) obtain i where i: "i < length ps" "p = ps ! i"
    by (auto simp: in_set_conv_nth)
  have "L ! i \<in> set L" using i(1) l2(1) by simp
  moreover have "p \<in> set (f (L ! i))" using l2(2) i getitem_Inr_mem[of "f (L ! i)" k p] by simp
  ultimately show ?thesis by (rule bexI[rotated])
qed

lemma mapE_length: "mapE f xs = Inr ys \<Longrightarrow> length ys = length xs"
  by (simp add: mapE_eq_Inr list_all2_lengthD)

lemma yymmdd_date12_ok:
  assumes "yymmdd_date12 L = Inr N"
  shows "length N = length L \<and> (\<forall>x\<in>set N. date12_ok x)"
proof -
  let ?f = "\<lambda>i. str_split CHR ''_'' (str_replace CHR ''-'' CHR ''_'' i)"
  from assms obtain ms ss where ms: "mapE (\<lambda>i. getitem (?f i) 0) L = Inr ms"
    and ss: "mapE (\<lambda>i. getitem (?f i) 1) L = Inr ss"
    and N: "N = map (\<lambda>(m, s). m @ ''-'' @ s) (zip (yymmdd ms) (yymmdd ss))"
    unfolding yymmdd_date12_def by (auto simp: bind_eq_Inr)
  have len: "length N = length L"
    using mapE_length[OF ms] mapE_length[OF ss] by (simp add: N yymmdd_def)
  have part: "CHR ''-'' \<notin> set (yymmdd_str p) \<and> length (yymmdd_str p) \<noteq> 8"
    if "p \<in> set ms \<union> set ss" for p
  proof -
    from that have "\<exists>l\<in>set L. p \<in> set (?f l)"
      using mapE_getitem_parts[OF ms] mapE_getitem_parts[OF ss] by blast
    then show ?thesis using split_replace_part by blast
  qed
  have "date12_ok x" if "x \<in> set N" for x
  proof -
    from that obtain m s where ms': "(m, s) \<in> set (zip (yymmdd ms) (yymmdd ss))"
      and x: "x = m @ ''-'' @ s" unfolding N by auto
    from ms' have "m \<in> set (yymmdd ms)" "s \<in> set (yymmdd ss)"
      by (auto dest: set_zip_leftD set_zip_rightD)
    then obtain p q where "p \<in> set ms" "m = yymmdd_str p" "q \<in> set ss" "s = yymmdd_str q"
      unfolding yymmdd_def by auto
    then have m: "CHR ''-'' \<notin> set m" "length m \<noteq> 8" and s: "CHR ''-'' \<notin> set s" "length s \<noteq> 8"
      using part[of p] part[of q] by simp_all
    have "str_split CHR ''-'' x = [m, s]" unfolding x using str_split_join[OF m(1) s(1)] by simp
    then show ?thesis using m s by (simp add: date12_ok_def)
  qed
  then show ?thesis using len by blast
qed

end
